theory Spec2Isabelle
  imports Main "HOL-Library.Word" "HOL-Library.Multiset"
    "HOL-Library.List_Lexorder" "HOL-Library.Product_Lexorder"
begin

section \<open>ShowGlobals: duplicate and oversized global variables of a PDB\<close>

text \<open>
  A shallow embedding of \<^verbatim>\<open>tools/win/ShowGlobals/ShowGlobals.cc\<close>. The tool is built for
  Windows: \<^verbatim>\<open>wchar_t\<close> is an unsigned 16-bit code unit, \<^verbatim>\<open>DWORD\<close> is 32 bits unsigned,
  \<^verbatim>\<open>ULONGLONG\<close> is 64 bits unsigned, \<^verbatim>\<open>int\<close> and \<^verbatim>\<open>HRESULT\<close> are 32 bits signed, and
  \<^verbatim>\<open>size_t\<close> is taken at its 64-bit width (an x64 build).
\<close>

subsection \<open>Strings and their comparison\<close>

type_synonym wchar_t = "16 word"
type_synonym wstring = "wchar_t list"
type_synonym DWORD = "32 word"
type_synonym ULONGLONG = "64 word"
type_synonym size_t = "64 word"
type_synonym cint = "32 word"
type_synonym HRESULT = "32 word"

text \<open>
  \<^verbatim>\<open>wcscmp\<close> on the buffers \<^verbatim>\<open>c_str()\<close> returns: each list is followed by the terminating
  zero, and the comparison stops at the first zero or at the first difference. Only the
  sign of the result is used by the program; the model returns \<open>-1\<close>, \<open>0\<close> or \<open>1\<close>.
\<close>

fun wcscmp :: "wstring \<Rightarrow> wstring \<Rightarrow> int" where
  "wcscmp [] [] = 0"
| "wcscmp [] (y # ys) = (if y = 0 then 0 else - 1)"
| "wcscmp (x # xs) [] = (if x = 0 then 0 else 1)"
| "wcscmp (x # xs) (y # ys) =
     (if x = y then (if x = 0 then 0 else wcscmp xs ys)
      else if x < y then - 1 else 1)"

definition StringCompare :: "wstring \<Rightarrow> wstring \<Rightarrow> int" where
  "StringCompare lhs rhs = wcscmp lhs rhs"

subsection \<open>Symbol data and the two comparators\<close>

record SymbolData =
  size_bytes :: ULONGLONG
  section_idx :: DWORD
  offset :: DWORD
  name :: wstring

definition NameCompare :: "SymbolData \<Rightarrow> SymbolData \<Rightarrow> bool" where
  "NameCompare lhs rhs =
     (let nameCompare = StringCompare (name lhs) (name rhs)
      in if nameCompare = 0 then size_bytes lhs < size_bytes rhs
         else nameCompare < 0)"

definition SizeCompare :: "SymbolData \<Rightarrow> SymbolData \<Rightarrow> bool" where
  "SizeCompare lhs rhs =
     (if size_bytes lhs = size_bytes rhs
      then StringCompare (name lhs) (name rhs) < 0
      else size_bytes lhs < size_bytes rhs)"

record RepeatData =
  repeat_count :: ULONGLONG
  bytes_wasted :: ULONGLONG
  folding_count :: cint
  repeat_name :: wstring

text \<open>\<^verbatim>\<open>RepeatData::operator<\<close>.\<close>

definition RepeatData_less :: "RepeatData \<Rightarrow> RepeatData \<Rightarrow> bool" where
  "RepeatData_less lhs rhs = (bytes_wasted lhs < bytes_wasted rhs)"

definition kWastageThreshold :: cint where
  "kWastageThreshold = 100"

definition kBigSizeThreshold :: cint where
  "kBigSizeThreshold = 500"

subsection \<open>The library sort\<close>

text \<open>
  \<^verbatim>\<open>std::sort\<close> promises a permutation of its input in which no element is less than
  one before it, and nothing about the order of equivalent elements. \<open>std_sort lt xs ys\<close>
  says that \<open>ys\<close> is an admissible result for the input \<open>xs\<close>. \<open>sort_by\<close> is one
  implementation (insertion sort), used to run the analysis.
\<close>

definition std_sort :: "('a \<Rightarrow> 'a \<Rightarrow> bool) \<Rightarrow> 'a list \<Rightarrow> 'a list \<Rightarrow> bool" where
  "std_sort lt xs ys =
     (mset ys = mset xs \<and> sorted_wrt (\<lambda>a b. \<not> lt b a) ys)"

fun insert_by :: "('a \<Rightarrow> 'a \<Rightarrow> bool) \<Rightarrow> 'a \<Rightarrow> 'a list \<Rightarrow> 'a list" where
  "insert_by lt x [] = [x]"
| "insert_by lt x (y # ys) =
     (if lt y x then y # insert_by lt x ys else x # y # ys)"

fun sort_by :: "('a \<Rightarrow> 'a \<Rightarrow> bool) \<Rightarrow> 'a list \<Rightarrow> 'a list" where
  "sort_by lt [] = []"
| "sort_by lt (x # xs) = insert_by lt x (sort_by lt xs)"

subsection \<open>The scan for repeated globals\<close>

text \<open>
  The inner \<^verbatim>\<open>while\<close> loop: \<open>p\<close> is the first symbol of the run, the list is what lies
  from \<^verbatim>\<open>pScan\<close> to the end, and the result is the final \<^verbatim>\<open>folding_count\<close> with what
  lies from the final \<^verbatim>\<open>pScan\<close> to the end.
\<close>

fun scan_run :: "SymbolData \<Rightarrow> SymbolData list \<Rightarrow> cint \<Rightarrow> cint \<times> SymbolData list" where
  "scan_run p [] folding_count' = (folding_count', [])"
| "scan_run p (s # ss) folding_count' =
     (if size_bytes p = size_bytes s \<and> StringCompare (name p) (name s) = 0
      then scan_run p ss
             (if offset s = offset p \<and> offset p \<noteq> 0 then folding_count' + 1
              else folding_count')
      else (folding_count', s # ss))"

text \<open>
  The statement \<^verbatim>\<open>if (repeat_count > 1) { ... }\<close> of the outer loop, with the value of
  its local \<^verbatim>\<open>excess_count\<close> apart: the result is what it pushes onto \<^verbatim>\<open>repeats\<close>,
  one element or none. The \<^verbatim>\<open>int\<close> \<open>folding_count\<close> is converted to \<^verbatim>\<open>size_t\<close>
  (sign extended) for the subtraction, the product with the 64-bit size wraps, and the
  threshold is converted to unsigned for the comparison.
\<close>

definition excess_count :: "bool \<Rightarrow> size_t \<Rightarrow> cint \<Rightarrow> size_t" where
  "excess_count show_folded_constants repeat_count' folding_count' =
     (if show_folded_constants then repeat_count'
      else repeat_count' - scast folding_count')"

definition check_repeat :: "bool \<Rightarrow> SymbolData \<Rightarrow> size_t \<Rightarrow> cint \<Rightarrow> RepeatData list" where
  "check_repeat show_folded_constants p repeat_count0 folding_count0 =
     (if repeat_count0 > 1 then
        (let repeat_count' = repeat_count0 - 1;
             folding_count' = folding_count0 - 1;
             bytes_wasted' = excess_count show_folded_constants repeat_count' folding_count'
                              * size_bytes p
         in if bytes_wasted' > scast kWastageThreshold
            then [\<lparr>repeat_count = repeat_count', bytes_wasted = bytes_wasted',
                   folding_count = folding_count', repeat_name = name p\<rparr>]
            else [])
      else [])"

text \<open>
  The outer loop over the name-sorted symbols: the list is what lies from \<open>p\<close> to the
  end, and the result is what was pushed onto \<^verbatim>\<open>repeats\<close>, in order.
\<close>

function find_repeats :: "bool \<Rightarrow> SymbolData list \<Rightarrow> RepeatData list" where
  "find_repeats show_folded_constants [] = []"
| "find_repeats show_folded_constants (p # ps) =
     (let (folding_count', pScan) = scan_run p (p # ps) 0;
          repeat_count' = of_nat (length (p # ps) - length pScan)
      in check_repeat show_folded_constants p repeat_count' folding_count'
           @ find_repeats show_folded_constants pScan)"
  by pat_completeness auto
termination
proof (relation "measure (\<lambda>(b, xs). length xs)")
  show "wf (measure (\<lambda>(b, xs). length xs))" by simp
next
  fix b :: bool and p ps x fc pScan
  assume "x = scan_run p (p # ps) 0" and "(fc, pScan) = x"
  then have "pScan = snd (scan_run p (p # ps) 0)" by (metis snd_conv)
  moreover have "wcscmp a a = 0" for a
    by (induction a) auto
  moreover have "length (snd (scan_run p xs c)) \<le> length xs" for xs c
    by (induction xs arbitrary: c) (auto intro: le_SucI)
  ultimately show "((b, pScan), (b, p # ps)) \<in> measure (\<lambda>(b, xs). length xs)"
    by (simp add: StringCompare_def less_Suc_eq_le)
qed

text \<open>
  The ranges \<^verbatim>\<open>[p, pScan)\<close> that the outer loop visits, one per iteration: the groups
  of symbols that the loop treats as copies of one global.
\<close>

function runs :: "SymbolData list \<Rightarrow> SymbolData list list" where
  "runs [] = []"
| "runs (p # ps) =
     (let (folding_count', pScan) = scan_run p (p # ps) 0
      in take (length (p # ps) - length pScan) (p # ps) # runs pScan)"
  by pat_completeness auto
termination
proof (relation "measure length")
  show "wf (measure (length :: SymbolData list \<Rightarrow> nat))" by simp
next
  fix p ps x fc pScan
  assume "x = scan_run p (p # ps) 0" and "(fc, pScan) = x"
  then have "pScan = snd (scan_run p (p # ps) 0)" by (metis snd_conv)
  moreover have "wcscmp a a = 0" for a
    by (induction a) auto
  moreover have "length (snd (scan_run p xs c)) \<le> length xs" for xs c
    by (induction xs arbitrary: c) (auto intro: le_SucI)
  ultimately show "(pScan, p # ps) \<in> measure length"
    by (simp add: StringCompare_def less_Suc_eq_le)
qed

subsection \<open>The largest globals\<close>

text \<open>
  The last loop prints the symbols in order and stops at the first one below the
  threshold, which is converted to \<^verbatim>\<open>ULONGLONG\<close> for the comparison.
\<close>

fun large_symbols :: "SymbolData list \<Rightarrow> SymbolData list" where
  "large_symbols [] = []"
| "large_symbols (s # ss) =
     (if size_bytes s < scast kBigSizeThreshold then [] else s # large_symbols ss)"

subsection \<open>The analysis\<close>

text \<open>
  \<^verbatim>\<open>DumpInterestingGlobals\<close> from the point where the enumeration loop has filled the
  vector \<open>symbols\<close>. The result is the pair of the sequences it prints: the repeated
  globals and the large symbols. Each of the three calls of \<^verbatim>\<open>std::sort\<close> may return
  any admissible result; the second sort of \<open>symbols\<close> works on the vector as the first
  one left it.
\<close>

inductive DumpInterestingGlobals ::
  "SymbolData list \<Rightarrow> bool \<Rightarrow> RepeatData list \<times> SymbolData list \<Rightarrow> bool" where
  dump: "std_sort NameCompare symbols by_name \<Longrightarrow>
     std_sort RepeatData_less (find_repeats show_folded_constants by_name) repeats \<Longrightarrow>
     std_sort SizeCompare by_name by_size \<Longrightarrow>
     DumpInterestingGlobals symbols show_folded_constants
       (rev repeats, large_symbols (rev by_size))"

text \<open>The same analysis with insertion sort for \<^verbatim>\<open>std::sort\<close>.\<close>

definition run_DumpInterestingGlobals ::
  "SymbolData list \<Rightarrow> bool \<Rightarrow> RepeatData list \<times> SymbolData list" where
  "run_DumpInterestingGlobals symbols show_folded_constants =
     (let by_name = sort_by NameCompare symbols;
          repeats = sort_by RepeatData_less (find_repeats show_folded_constants by_name);
          by_size = sort_by SizeCompare by_name
      in (rev repeats, large_symbols (rev by_size)))"

subsection \<open>The command line\<close>

text \<open>
  What \<^verbatim>\<open>wmain\<close> prints, one constructor per \<^verbatim>\<open>wprintf\<close> of a message; \<open>Report\<close>
  stands for all that \<^verbatim>\<open>DumpInterestingGlobals\<close> prints.
\<close>

datatype message =
    Usage
  | CoInitialize_failed HRESULT
  | DIA2_failed HRESULT
  | LoadDataFromPdb_failed HRESULT
  | OpenSession_failed HRESULT
  | Get_globalScope_failed HRESULT
  | Report

text \<open>The results of the COM and DIA calls, which the program cannot influence.\<close>

record com_results =
  CoInitialize :: HRESULT
  CoCreateInstance :: HRESULT
  loadDataFromPdb :: "wstring \<Rightarrow> HRESULT"
  openSession :: HRESULT
  get_globalScope :: HRESULT

definition FAILED :: "HRESULT \<Rightarrow> bool" where
  "FAILED hr = (sint hr < 0)"

definition S_OK :: HRESULT where
  "S_OK = 0"

definition L :: "string \<Rightarrow> wstring" where
  "L s = map of_char s"

definition Initialize :: "com_results \<Rightarrow> wstring \<Rightarrow> message list \<times> bool" where
  "Initialize com filename =
     (if FAILED (CoCreateInstance com) then ([DIA2_failed (CoCreateInstance com)], False)
      else if FAILED (loadDataFromPdb com filename)
      then ([LoadDataFromPdb_failed (loadDataFromPdb com filename)], False)
      else if FAILED (openSession com) then ([OpenSession_failed (openSession com)], False)
      else if get_globalScope com \<noteq> S_OK
      then ([Get_globalScope_failed (get_globalScope com)], False)
      else ([], True))"

text \<open>The argument loop of \<^verbatim>\<open>wmain\<close>, from \<^verbatim>\<open>i = 0\<close>: the list is \<^verbatim>\<open>argv[i..argc)\<close>.\<close>

fun parse_args :: "wstring list \<Rightarrow> bool \<times> wstring option \<Rightarrow> bool \<times> wstring option" where
  "parse_args [] st = st"
| "parse_args (a # as) (show_folded_constants, filename) =
     (if wcscmp a (L ''--show_folded_constants'') = 0
      then parse_args as (True, filename)
      else parse_args as (show_folded_constants, Some a))"

text \<open>
  \<^verbatim>\<open>wmain\<close> returns what it printed and the exit code. \<^verbatim>\<open>return false\<close> is the exit
  code 0, and so is leaving the function at its end.
\<close>

definition wmain :: "com_results \<Rightarrow> wstring list \<Rightarrow> message list \<times> cint" where
  "wmain com argv =
     (case parse_args argv (False, None) of
        (show_folded_constants, None) \<Rightarrow> ([Usage], - 1)
      | (show_folded_constants, Some filename) \<Rightarrow>
          if FAILED (CoInitialize com) then ([CoInitialize_failed (CoInitialize com)], 0)
          else (case Initialize com filename of
                  (msgs, False) \<Rightarrow> (msgs, - 1)
                | (msgs, True) \<Rightarrow> (msgs @ [Report], 0)))"

section \<open>Derived notions\<close>

text \<open>
  The string that \<^verbatim>\<open>wcscmp\<close> reads from a buffer ends before the first zero.
  \<open>name_key\<close> and \<open>size_key\<close> are the sort keys of the two comparators,
  \<open>same_global p\<close> is the condition of the inner loop of the scan and \<open>folded p\<close>
  the condition under which it counts a symbol as folded.
\<close>

definition c_str :: "wstring \<Rightarrow> wstring" where
  "c_str a = takeWhile (\<lambda>c. c \<noteq> 0) a"

definition name_key :: "SymbolData \<Rightarrow> wstring \<times> ULONGLONG" where
  "name_key s = (c_str (name s), size_bytes s)"

definition size_key :: "SymbolData \<Rightarrow> ULONGLONG \<times> wstring" where
  "size_key s = (size_bytes s, c_str (name s))"

definition same_global :: "SymbolData \<Rightarrow> SymbolData \<Rightarrow> bool" where
  "same_global p s = (size_bytes p = size_bytes s \<and> StringCompare (name p) (name s) = 0)"

definition folded :: "SymbolData \<Rightarrow> SymbolData \<Rightarrow> bool" where
  "folded p s = (offset s = offset p \<and> offset p \<noteq> 0)"

text \<open>
  The row that the report prints for a repeated global, without its folding count: the
  name is printed up to its first zero.
\<close>

definition printed_repeat :: "RepeatData \<Rightarrow> ULONGLONG \<times> ULONGLONG \<times> wstring" where
  "printed_repeat r = (repeat_count r, bytes_wasted r, c_str (repeat_name r))"

section \<open>Concrete inputs\<close>

text \<open>
  Symbols named \<^verbatim>\<open>"k"\<close> (the code unit 107) of size 64 in section 1, and the
  collections and printed groups that the concrete runs below use.
\<close>

definition k_at :: "DWORD \<Rightarrow> SymbolData" where
  "k_at off = \<lparr>size_bytes = 64, section_idx = 1, offset = off, name = [107]\<rparr>"

definition scenario_A :: "SymbolData list" where
  "scenario_A = [k_at 0x10, k_at 0x20, k_at 0x30]"

definition scenario_A_group :: RepeatData where
  "scenario_A_group = \<lparr>repeat_count = 2, bytes_wasted = 128, folding_count = 0, repeat_name = [107]\<rparr>"

definition scenario_B :: "SymbolData list" where
  "scenario_B = [k_at 0x10, k_at 0x10, k_at 0x20]"

definition scenario_B_group :: RepeatData where
  "scenario_B_group =
     \<lparr>repeat_count = 2, bytes_wasted = 128, folding_count = 1, repeat_name = [107]\<rparr>"

definition scenario_B_reordered :: "SymbolData list" where
  "scenario_B_reordered = [k_at 0x20, k_at 0x10, k_at 0x10]"

definition zero_pair :: "SymbolData list" where
  "zero_pair = [k_at 0, (k_at 0)\<lparr>section_idx := 2\<rparr>]"

definition zero_pair_group :: RepeatData where
  "zero_pair_group =
     \<lparr>repeat_count = 1, bytes_wasted = 128, folding_count = - 1, repeat_name = [107]\<rparr>"

definition equal_sized :: "SymbolData list" where
  "equal_sized =
     [\<lparr>size_bytes = 600, section_idx = 1, offset = 0x10, name = [97]\<rparr>,
      \<lparr>size_bytes = 600, section_idx = 1, offset = 0x400, name = [98]\<rparr>]"

definition failing_com :: com_results where
  "failing_com = \<lparr>CoInitialize = - 1, CoCreateInstance = 0, loadDataFromPdb = (\<lambda>f. 0),
     openSession = 0, get_globalScope = 0\<rparr>"

section \<open>Properties of the model\<close>

subsection \<open>The comparators are the orders of their keys\<close>

lemma wcscmp_refl [simp]: "wcscmp a a = 0"
  by (induction a) auto

lemma wcscmp_range: "wcscmp a b = - 1 \<or> wcscmp a b = 0 \<or> wcscmp a b = 1"
  by (induction a b rule: wcscmp.induct) auto

lemma wcscmp_eq_iff: "wcscmp a b = 0 \<longleftrightarrow> c_str a = c_str b"
  by (induction a b rule: wcscmp.induct) (auto simp: c_str_def)

lemma wcscmp_less_iff: "wcscmp a b < 0 \<longleftrightarrow> c_str a < c_str b"
  by (induction a b rule: wcscmp.induct) (auto simp: c_str_def word_gt_0)

lemma NameCompare_key: "NameCompare a b \<longleftrightarrow> name_key a < name_key b"
  by (auto simp: NameCompare_def StringCompare_def name_key_def wcscmp_eq_iff wcscmp_less_iff less_prod_def Let_def)

lemma SizeCompare_key: "SizeCompare a b \<longleftrightarrow> size_key a < size_key b"
  by (auto simp: SizeCompare_def StringCompare_def size_key_def wcscmp_less_iff less_prod_def)

lemma c_str_id: "0 \<notin> set a \<Longrightarrow> c_str a = a"
  by (auto simp: c_str_def)

lemma sorted_wrt_key:
  fixes f :: "'a \<Rightarrow> 'k::linorder"
  assumes "\<And>a b. lt a b \<longleftrightarrow> f a < f b"
  shows "sorted_wrt (\<lambda>a b. \<not> lt b a) ys \<longleftrightarrow> sorted (map f ys)"
  by (simp add: assms sorted_map not_less)

subsection \<open>Insertion sort is an admissible sort\<close>

lemma set_insert_by: "set (insert_by lt x ys) = insert x (set ys)"
  by (induction ys) auto

lemma mset_insert_by: "mset (insert_by lt x ys) = add_mset x (mset ys)"
  by (induction ys) auto

lemma mset_sort_by: "mset (sort_by lt xs) = mset xs"
  by (induction xs) (auto simp: mset_insert_by)

lemma sorted_insert_by:
  fixes f :: "'a \<Rightarrow> 'k::linorder"
  assumes "\<And>a b. lt a b \<longleftrightarrow> f a < f b"
  shows "sorted (map f ys) \<Longrightarrow> sorted (map f (insert_by lt x ys))"
  by (induction ys) (auto simp: assms set_insert_by)

lemma sorted_sort_by:
  fixes f :: "'a \<Rightarrow> 'k::linorder"
  assumes "\<And>a b. lt a b \<longleftrightarrow> f a < f b"
  shows "sorted (map f (sort_by lt xs))"
proof (induction xs)
  case Nil
  show ?case by simp
next
  case (Cons x xs)
  have "sorted (map f (insert_by lt x (sort_by lt xs)))"
    by (rule sorted_insert_by [where f = f, OF assms Cons])
  then show ?case by (simp only: sort_by.simps)
qed

lemma std_sort_sort_by:
  fixes f :: "'a \<Rightarrow> 'k::linorder"
  assumes "\<And>a b. lt a b \<longleftrightarrow> f a < f b"
  shows "std_sort lt xs (sort_by lt xs)"
  unfolding std_sort_def
  using sorted_sort_by [of lt f xs] sorted_wrt_key [of lt f "sort_by lt xs"] assms
  by (simp add: mset_sort_by)

lemma RepeatData_less_key: "RepeatData_less a b \<longleftrightarrow> bytes_wasted a < bytes_wasted b"
  by (simp add: RepeatData_less_def)

subsection \<open>The scan, run by run\<close>

lemma scan_run_eq:
  "scan_run p xs fc =
     (fc + of_nat (length (filter (folded p) (takeWhile (same_global p) xs))),
      dropWhile (same_global p) xs)"
  by (induction xs arbitrary: fc) (auto simp: same_global_def folded_def)

lemma same_global_key: "same_global p s \<longleftrightarrow> name_key s = name_key p"
  by (auto simp: same_global_def name_key_def StringCompare_def wcscmp_eq_iff)

lemma take_length_dropWhile: "take (length xs - length (dropWhile P xs)) xs = takeWhile P xs"
  by (induction xs) (auto simp: Suc_diff_le length_dropWhile_le)

lemma length_diff_dropWhile: "length xs - length (dropWhile P xs) = length (takeWhile P xs)"
  by (induction xs) (auto simp: Suc_diff_le length_dropWhile_le)

lemma runs_Cons:
  "runs (p # ps) = takeWhile (same_global p) (p # ps) # runs (dropWhile (same_global p) (p # ps))"
  using take_length_dropWhile [of "p # ps" "same_global p"]
  by (simp add: scan_run_eq del: take_Suc_Cons takeWhile.simps dropWhile.simps)

lemma find_repeats_Cons:
  "find_repeats b (p # ps) =
     check_repeat b p (of_nat (length (takeWhile (same_global p) (p # ps))))
        (of_nat (length (filter (folded p) (takeWhile (same_global p) (p # ps)))))
     @ find_repeats b (dropWhile (same_global p) (p # ps))"
  using length_diff_dropWhile [of "p # ps" "same_global p"]
  by (simp add: scan_run_eq del: takeWhile.simps dropWhile.simps)

lemma same_global_refl [simp]: "same_global p p"
  by (simp add: same_global_def StringCompare_def)

lemma find_repeats_run:
  assumes "\<forall>s\<in>set g. same_global p s"
  shows "find_repeats b (p # g) =
           check_repeat b p (of_nat (Suc (length g)))
             (of_nat (length (filter (folded p) (p # g))))"
proof -
  have "takeWhile (same_global p) (p # g) = p # g" "dropWhile (same_global p) (p # g) = []"
    using assms by simp_all
  then show ?thesis
    by (simp only: find_repeats_Cons find_repeats.simps append_Nil2 length_Cons)
qed

lemma runs_induct [case_names Nil Cons]:
  assumes "P []" and "\<And>p ps. P (dropWhile (same_global p) (p # ps)) \<Longrightarrow> P (p # ps)"
  shows "P xs"
proof (induction xs rule: length_induct)
  case (1 xs)
  show ?case
  proof (cases xs)
    case Nil
    then show ?thesis using assms(1) by simp
  next
    case (Cons p ps)
    have "length (dropWhile (same_global p) (p # ps)) < length xs"
      using Cons length_dropWhile_le [of "same_global p" ps] by simp
    then show ?thesis using 1 assms(2) [of p ps] Cons by blast
  qed
qed

lemma takeWhile_same_Cons: "takeWhile (same_global p) (p # ps) = p # takeWhile (same_global p) ps"
  by simp

lemma find_repeats_runs: "find_repeats b xs = concat (map (find_repeats b) (runs xs))"
proof (induction xs rule: runs_induct)
  case Nil
  show ?case by simp
next
  case (Cons p ps)
  have run: "find_repeats b (takeWhile (same_global p) (p # ps)) =
      check_repeat b p (of_nat (length (takeWhile (same_global p) (p # ps))))
        (of_nat (length (filter (folded p) (takeWhile (same_global p) (p # ps)))))"
    unfolding takeWhile_same_Cons
    by (subst find_repeats_run) (auto dest: set_takeWhileD)
  show ?case
    by (simp only: runs_Cons list.map concat.simps find_repeats_Cons [of b p ps] run Cons)
qed

lemma concat_runs: "concat (runs xs) = xs"
proof (induction xs rule: runs_induct)
  case Nil
  show ?case by simp
next
  case (Cons p ps)
  show ?case
    by (simp only: runs_Cons concat.simps Cons takeWhile_dropWhile_id)
qed

lemma runs_same:
  "g \<in> set (runs xs) \<Longrightarrow> g \<noteq> [] \<and> (\<forall>s\<in>set g. same_global (hd g) s)"
proof (induction xs rule: runs_induct)
  case Nil
  then show ?case by simp
next
  case (Cons p ps)
  from Cons.prems have "g = takeWhile (same_global p) (p # ps) \<or> g \<in> set (runs (dropWhile (same_global p) (p # ps)))"
    by (simp only: runs_Cons set_simps insert_iff)
  then show ?case
  proof
    assume g: "g = takeWhile (same_global p) (p # ps)"
    then have "g = p # takeWhile (same_global p) ps" by simp
    then show ?thesis by (auto dest: set_takeWhileD)
  next
    assume "g \<in> set (runs (dropWhile (same_global p) (p # ps)))"
    then show ?thesis by (rule Cons.IH)
  qed
qed

lemma check_repeat_wasted:
  "r \<in> set (check_repeat b p n m) \<Longrightarrow> scast kWastageThreshold < bytes_wasted r"
  by (auto simp: check_repeat_def Let_def split: if_splits)

lemma find_repeats_wasted:
  "r \<in> set (find_repeats b xs) \<Longrightarrow> scast kWastageThreshold < bytes_wasted r"
proof (induction xs rule: runs_induct)
  case Nil
  then show ?case by simp
next
  case (Cons p ps)
  from Cons.prems show ?case
    unfolding find_repeats_Cons set_append Un_iff
    using check_repeat_wasted Cons.IH by blast
qed

lemma DumpInterestingGlobalsE:
  assumes "DumpInterestingGlobals symbols b (d, l)"
  obtains by_name repeats by_size where
    "std_sort NameCompare symbols by_name"
    "std_sort RepeatData_less (find_repeats b by_name) repeats"
    "std_sort SizeCompare by_name by_size"
    "d = rev repeats" "l = large_symbols (rev by_size)"
  using assms by (auto elim: DumpInterestingGlobals.cases)

subsection \<open>The counters as integers\<close>

lemma unat_size_t: "n < 2 ^ 64 \<Longrightarrow> unat (of_nat n :: 64 word) = n"
  by (simp add: unat_of_nat)

lemma uint_pred_size_t:
  assumes "n < 2 ^ 64" and "1 < (of_nat n :: 64 word)"
  shows "uint (of_nat n - 1 :: 64 word) = int n - 1"
proof -
  have "1 < n" using assms by (simp add: word_less_nat_alt unat_size_t)
  then have "(of_nat n - 1 :: 64 word) = of_nat (n - 1)" by simp
  moreover have "unat (of_nat (n - 1) :: 64 word) = n - 1"
    using assms(1) by (simp add: unat_size_t)
  ultimately have "unat (of_nat n - 1 :: 64 word) = n - 1" by simp
  then have "uint (of_nat n - 1 :: 64 word) = int (n - 1)"
    by (metis uint_nat)
  then show ?thesis using \<open>1 < n\<close> by simp
qed

lemma sint_pred_cint:
  assumes "m \<le> 2 ^ 31"
  shows "sint (of_nat m - 1 :: 32 word) = int m - 1"
proof -
  have "(of_nat m - 1 :: 32 word) = word_of_int (int m - 1)" by simp
  moreover have "sint (word_of_int (int m - 1) :: 32 word) = int m - 1"
    unfolding sint_sbintrunc' using assms
    by (intro signed_take_bit_int_eq_self) simp_all
  ultimately show ?thesis by simp
qed

lemma check_repeat_counts:
  assumes "r \<in> set (check_repeat b p (of_nat n) (of_nat m))"
  shows "1 < (of_nat n :: 64 word)" "repeat_count r = of_nat n - 1"
    "folding_count r = of_nat m - 1"
    "bytes_wasted r = excess_count b (of_nat n - 1) (of_nat m - 1) * size_bytes p"
    "repeat_name r = name p"
    "check_repeat b p (of_nat n) (of_nat m) = [r]"
  using assms by (auto simp: check_repeat_def Let_def split: if_splits)

lemma check_repeat_folding_le:
  assumes "r \<in> set (check_repeat b p (of_nat n) (of_nat m))" and "m \<le> n" and "n < 2 ^ 64"
  shows "sint (folding_count r) \<le> uint (repeat_count r)"
proof -
  note c = check_repeat_counts [OF assms(1)]
  have u: "uint (repeat_count r) = int n - 1"
    using uint_pred_size_t [OF assms(3) c(1)] c(2) by simp
  show ?thesis
  proof (cases "n \<le> 2 ^ 31")
    case True
    then have "m \<le> 2 ^ 31" using assms(2) by simp
    then have "sint (folding_count r) = int m - 1" using sint_pred_cint c(3) by simp
    then show ?thesis using u assms(2) by simp
  next
    case False
    have "sint (folding_count r) < 2 ^ 31" using sint_lt [of "folding_count r"] by simp
    then show ?thesis using u False by simp
  qed
qed

lemma runs_report:
  assumes "g \<in> set (runs xs)"
  shows "find_repeats b g =
           check_repeat b (hd g) (of_nat (length g))
             (of_nat (length (filter (folded (hd g)) g)))"
proof -
  from runs_same [OF assms] obtain p ps where g: "g = p # ps"
    and s: "\<forall>s\<in>set ps. same_global p s"
    by (cases g) auto
  show ?thesis unfolding g using find_repeats_run [OF s] by simp
qed

lemma emitted_run:
  assumes "r \<in> set (find_repeats b xs)"
  obtains g where "g \<in> set (runs xs)" "find_repeats b g = [r]"
proof -
  from assms obtain g where g: "g \<in> set (runs xs)" and r: "r \<in> set (find_repeats b g)"
    by (auto simp: find_repeats_runs [of b xs])
  from r have "find_repeats b g = [r]"
    unfolding runs_report [OF g] by (rule check_repeat_counts(6))
  then show ?thesis using g that by blast
qed

lemma runs_length_le: "g \<in> set (runs xs) \<Longrightarrow> length g \<le> length xs"
proof -
  assume "g \<in> set (runs xs)"
  then have "length g \<le> length (concat (runs xs))"
    by (auto simp: length_concat intro: member_le_sum_list)
  then show ?thesis by (simp add: concat_runs)
qed

lemma std_sort_length: "std_sort lt xs ys \<Longrightarrow> length ys = length xs"
  by (auto simp: std_sort_def dest: mset_eq_length)

lemma std_sort_set: "std_sort lt xs ys \<Longrightarrow> set ys = set xs"
  by (auto simp: std_sort_def dest: mset_eq_setD)

subsection \<open>Reorderings of short vectors\<close>

lemma mset_eq_two:
  assumes "mset ys = mset [a, b]"
  shows "ys = [a, b] \<or> ys = [b, a]"
proof -
  have "length ys = length [a, b]" by (rule mset_eq_length [OF assms])
  then have "length ys = 2" by simp
  then obtain x y where ys: "ys = [x, y]"
    by (cases ys; cases "tl ys") auto
  from assms show ?thesis unfolding ys
    by (auto simp: add_eq_conv_ex)
qed

lemma mset_eq_three:
  assumes "mset ys = mset [a, b, c]"
  shows "ys = [a, b, c] \<or> ys = [a, c, b] \<or> ys = [b, a, c] \<or> ys = [b, c, a]
       \<or> ys = [c, a, b] \<or> ys = [c, b, a]"
proof -
  have "length ys = length [a, b, c]" by (rule mset_eq_length [OF assms])
  then have "length ys = 3" by simp
  then obtain x y z where ys: "ys = [x, y, z]"
    by (cases ys; cases "tl ys"; cases "tl (tl ys)") auto
  from assms show ?thesis unfolding ys
    by (auto simp: add_eq_conv_ex)
qed

lemma large_symbols_small:
  assumes "\<forall>s\<in>set xs. size_bytes s < scast kBigSizeThreshold"
  shows "large_symbols xs = []"
  using assms by (cases xs) auto

lemma find_repeats_scenario_A_any:
  assumes "mset by_name = mset scenario_A"
  shows "find_repeats b by_name = [scenario_A_group]"
proof -
  have "by_name = [k_at 0x10, k_at 0x20, k_at 0x30] \<or> by_name = [k_at 0x10, k_at 0x30, k_at 0x20]
      \<or> by_name = [k_at 0x20, k_at 0x10, k_at 0x30] \<or> by_name = [k_at 0x20, k_at 0x30, k_at 0x10]
      \<or> by_name = [k_at 0x30, k_at 0x10, k_at 0x20] \<or> by_name = [k_at 0x30, k_at 0x20, k_at 0x10]"
    using assms unfolding scenario_A_def by (rule mset_eq_three)
  then show ?thesis
    by (elim disjE)
      (simp_all add: scenario_A_group_def k_at_def check_repeat_def excess_count_def
        kWastageThreshold_def StringCompare_def Let_def)
qed

subsection \<open>Concrete runs\<close>

lemmas scenario_defs = k_at_def check_repeat_def excess_count_def kWastageThreshold_def
  kBigSizeThreshold_def StringCompare_def NameCompare_def SizeCompare_def Let_def std_sort_def

lemma scenario_A_dump: "DumpInterestingGlobals scenario_A False ([scenario_A_group], [])"
proof -
  have 1: "std_sort NameCompare scenario_A scenario_A"
    by (simp add: std_sort_def scenario_A_def k_at_def NameCompare_def StringCompare_def)
  have 2: "std_sort RepeatData_less (find_repeats False scenario_A) [scenario_A_group]"
    by (simp add: find_repeats_scenario_A_any std_sort_def)
  have 3: "std_sort SizeCompare scenario_A scenario_A"
    by (simp add: std_sort_def scenario_A_def k_at_def SizeCompare_def StringCompare_def)
  have 4: "large_symbols (rev scenario_A) = []"
    by (simp add: scenario_A_def k_at_def kBigSizeThreshold_def)
  from dump [OF 1 2 3] show ?thesis by (simp add: 4)
qed

lemma scenario_B_dump: "DumpInterestingGlobals scenario_B True ([scenario_B_group], [])"
proof -
  have 1: "std_sort NameCompare scenario_B scenario_B"
    by (simp add: scenario_B_def scenario_defs)
  have 2: "std_sort RepeatData_less (find_repeats True scenario_B) [scenario_B_group]"
    by (simp add: scenario_B_def scenario_B_group_def scenario_defs)
  have 3: "std_sort SizeCompare scenario_B scenario_B"
    by (simp add: scenario_B_def scenario_defs)
  have 4: "large_symbols (rev scenario_B) = []"
    by (simp add: scenario_B_def scenario_defs)
  from dump [OF 1 2 3] show ?thesis by (simp add: 4)
qed

lemma find_repeats_zero_pair:
  assumes "mset by_name = mset zero_pair"
  shows "find_repeats False by_name = [zero_pair_group]"
proof -
  have "by_name = [k_at 0, (k_at 0)\<lparr>section_idx := 2\<rparr>]
      \<or> by_name = [(k_at 0)\<lparr>section_idx := 2\<rparr>, k_at 0]"
    using assms unfolding zero_pair_def by (rule mset_eq_two)
  then show ?thesis
    by (elim disjE) (simp_all add: zero_pair_group_def scenario_defs)
qed

lemma zero_pair_dump: "DumpInterestingGlobals zero_pair False ([zero_pair_group], [])"
proof -
  have 1: "std_sort NameCompare zero_pair zero_pair"
    by (simp add: zero_pair_def scenario_defs)
  have 2: "std_sort RepeatData_less (find_repeats False zero_pair) [zero_pair_group]"
    by (simp add: find_repeats_zero_pair std_sort_def)
  have 3: "std_sort SizeCompare zero_pair zero_pair"
    by (simp add: zero_pair_def scenario_defs)
  have 4: "large_symbols (rev zero_pair) = []"
    by (simp add: zero_pair_def scenario_defs)
  from dump [OF 1 2 3] show ?thesis by (simp add: 4)
qed

lemma scast_count:
  assumes "k < 2 ^ 31"
  shows "(scast (of_nat k :: 32 word) :: 64 word) = of_nat k"
proof -
  have "sint (word_of_int (int k) :: 32 word) = int k"
    unfolding sint_sbintrunc' using assms
    by (intro signed_take_bit_int_eq_self) simp_all
  then have "sint (of_nat k :: 32 word) = int k" by simp
  then show ?thesis by (simp add: scast_eq)
qed

lemma folded_excess_excluded:
  assumes "g \<in> set (runs xs)" and "find_repeats b g = [r]"
    and "offset (hd g) \<noteq> 0" and "length g < 2 ^ 31"
  shows "folding_count r = of_nat (length (filter (folded (hd g)) (tl g)))"
    and "bytes_wasted r =
           (if b then repeat_count r
            else repeat_count r - of_nat (length (filter (folded (hd g)) (tl g))))
           * size_bytes (hd g)"
proof -
  define k where "k = length (filter (folded (hd g)) (tl g))"
  have ne: "g \<noteq> []" using runs_same [OF assms(1)] by simp
  then have g: "g = hd g # tl g" by simp
  have "filter (folded (hd g)) (hd g # tl g) = hd g # filter (folded (hd g)) (tl g)"
    using assms(3) by (simp add: folded_def)
  then have m: "length (filter (folded (hd g)) g) = Suc k"
    using g by (simp add: k_def)
  have "r \<in> set (check_repeat b (hd g) (of_nat (length g)) (of_nat (Suc k)))"
    using assms(2) runs_report [OF assms(1), of b] m by simp
  note c = check_repeat_counts [OF this]
  have "k \<le> length (tl g)" unfolding k_def by (rule length_filter_le)
  then have kl: "k < 2 ^ 31" using assms(4) by simp
  show fc: "folding_count r = of_nat (length (filter (folded (hd g)) (tl g)))"
    using c(3) by (simp add: k_def)
  have "scast (folding_count r) = (of_nat k :: 64 word)"
    using fc scast_count [OF kl] by (simp add: k_def)
  then show "bytes_wasted r =
           (if b then repeat_count r
            else repeat_count r - of_nat (length (filter (folded (hd g)) (tl g))))
           * size_bytes (hd g)"
    using c(2,3,4) by (simp add: excess_count_def k_def)
qed

lemma filter_folded_zero: "offset p = 0 \<Longrightarrow> filter (folded p) g = []"
  by (simp add: folded_def)

lemma filter_folded_hd:
  assumes "offset p \<noteq> 0"
  shows "0 < length (filter (folded p) (p # ps))"
  using assms by (simp add: folded_def)

lemma check_repeat_folding_sign:
  assumes "r \<in> set (check_repeat b p (of_nat n) (of_nat m))" and "m \<le> n" and "n < 2 ^ 31"
  shows "sint (folding_count r) = int m - 1"
proof -
  have "m \<le> 2 ^ 31" using assms(2,3) by simp
  then show ?thesis
    using sint_pred_cint check_repeat_counts(3) [OF assms(1)] by simp
qed

lemma equal_sized_dump: "DumpInterestingGlobals equal_sized False ([], rev equal_sized)"
proof -
  have 1: "std_sort NameCompare equal_sized equal_sized"
    by (simp add: equal_sized_def scenario_defs)
  have 2: "std_sort RepeatData_less (find_repeats False equal_sized) []"
    by (simp add: equal_sized_def scenario_defs)
  have 3: "std_sort SizeCompare equal_sized equal_sized"
    by (simp add: equal_sized_def scenario_defs)
  have 4: "large_symbols (rev equal_sized) = rev equal_sized"
    by (simp add: equal_sized_def scenario_defs)
  from dump [OF 1 2 3] show ?thesis by (simp add: 4)
qed

subsection \<open>The large symbols are those at or above the threshold\<close>

lemma large_symbols_takeWhile:
  "large_symbols xs = takeWhile (\<lambda>s. \<not> size_bytes s < scast kBigSizeThreshold) xs"
  by (induction xs) auto

lemma takeWhile_eq_filter_sorted:
  fixes f :: "'a \<Rightarrow> 'k::linorder"
  assumes "sorted_wrt (\<lambda>a b. f b \<le> f a) xs"
  shows "takeWhile (\<lambda>s. \<not> f s < t) xs = filter (\<lambda>s. \<not> f s < t) xs"
  using assms
proof (induction xs)
  case Nil
  show ?case by simp
next
  case (Cons x xs)
  show ?case
  proof (cases "f x < t")
    case True
    then have "\<forall>y\<in>set xs. f y < t" using Cons.prems by auto
    then have "filter (\<lambda>s. \<not> f s < t) xs = []" by (simp add: filter_empty_conv)
    then show ?thesis using True by simp
  next
    case False
    then show ?thesis using Cons by simp
  qed
qed

lemma SizeCompare_size: "\<not> SizeCompare a b \<Longrightarrow> size_bytes b \<le> size_bytes a"
  by (auto simp: SizeCompare_def split: if_splits)

lemma std_sort_Nil: "std_sort lt [] ys \<longleftrightarrow> ys = []"
  by (auto simp: std_sort_def)

lemma run_DumpInterestingGlobals_admissible:
  "DumpInterestingGlobals symbols b (run_DumpInterestingGlobals symbols b)"
proof -
  have 1: "std_sort NameCompare symbols (sort_by NameCompare symbols)"
    by (rule std_sort_sort_by [where f = name_key]) (rule NameCompare_key)
  have 2: "std_sort RepeatData_less (find_repeats b (sort_by NameCompare symbols))
      (sort_by RepeatData_less (find_repeats b (sort_by NameCompare symbols)))"
    by (rule std_sort_sort_by [where f = bytes_wasted]) (rule RepeatData_less_key)
  have 3: "std_sort SizeCompare (sort_by NameCompare symbols)
      (sort_by SizeCompare (sort_by NameCompare symbols))"
    by (rule std_sort_sort_by [where f = size_key]) (rule SizeCompare_key)
  from dump [OF 1 2 3] show ?thesis
    by (simp add: run_DumpInterestingGlobals_def Let_def)
qed

subsection \<open>The command line\<close>

lemma parse_program_name:
  "parse_args [L ''ShowGlobals.exe''] (False, None) = (False, Some (L ''ShowGlobals.exe''))"
  by (simp add: L_def)

lemma parse_program_name_path:
  "parse_args [L ''ShowGlobals.exe'', L ''chrome.dll.pdb''] (False, None)
     = (False, Some (L ''chrome.dll.pdb''))"
  by (simp add: L_def)

lemma Usage_not_in_Initialize: "Usage \<notin> set (fst (Initialize com filename))"
  by (simp add: Initialize_def)

lemma wmain_Initialize_fails:
  assumes "parse_args argv (False, None) = (b, Some filename)"
    and "\<not> FAILED (CoInitialize com)"
    and "\<not> snd (Initialize com filename)"
  shows "snd (wmain com argv) = - 1" "fst (wmain com argv) = fst (Initialize com filename)"
    "fst (wmain com argv) \<noteq> []"
  using assms by (auto simp: wmain_def Initialize_def split: prod.splits if_splits)

lemma wmain_no_arguments: "wmain com [] = ([Usage], - 1)"
  by (simp add: wmain_def)

subsection \<open>Runs of a sorted vector and their keys\<close>

lemma same_global_key_fun: "same_global p = (\<lambda>s. name_key s = name_key p)"
  by (rule ext) (rule same_global_key)

lemma dropWhile_key_greater:
  fixes f :: "'a \<Rightarrow> 'k::linorder"
  assumes "sorted (map f xs)" and "\<forall>x\<in>set xs. k \<le> f x"
    and "y \<in> set (dropWhile (\<lambda>s. f s = k) xs)"
  shows "k < f y"
  using assms
proof (induction xs)
  case Nil
  then show ?case by simp
next
  case (Cons x xs)
  show ?case
  proof (cases "f x = k")
    case True
    then show ?thesis using Cons by simp
  next
    case False
    then have "k < f x" using Cons.prems(2) by (simp add: less_le)
    moreover have "f x \<le> f y" using Cons.prems(1,3) False by auto
    ultimately show ?thesis by simp
  qed
qed

lemma sorted_map_dropWhile:
  fixes f :: "'a \<Rightarrow> 'k::linorder"
  shows "sorted (map f xs) \<Longrightarrow> sorted (map f (dropWhile P xs))"
  by (induction xs) auto

lemma runs_hd_in: "g \<in> set (runs xs) \<Longrightarrow> hd g \<in> set xs"
proof -
  assume g: "g \<in> set (runs xs)"
  then have "g \<noteq> []" using runs_same by blast
  then have "hd g \<in> set g" by simp
  then have "hd g \<in> set (concat (runs xs))" using g by auto
  then show ?thesis by (simp add: concat_runs)
qed

lemma runs_keys_strict:
  assumes "sorted (map name_key xs)"
  shows "sorted_wrt (\<lambda>g h. name_key (hd g) < name_key (hd h)) (runs xs)"
  using assms
proof (induction xs rule: runs_induct)
  case Nil
  show ?case by simp
next
  case (Cons p ps)
  let ?dw = "dropWhile (same_global p) (p # ps)"
  have s: "sorted (map name_key ?dw)" using Cons.prems by (rule sorted_map_dropWhile)
  have ge: "\<forall>x\<in>set (p # ps). name_key p \<le> name_key x" using Cons.prems by auto
  have gt: "name_key p < name_key y" if "y \<in> set ?dw" for y
    using dropWhile_key_greater [OF Cons.prems ge] that
    unfolding same_global_key_fun by blast
  have hd: "hd (takeWhile (same_global p) (p # ps)) = p" by simp
  have "\<forall>h\<in>set (runs ?dw). name_key p < name_key (hd h)"
    using gt runs_hd_in by blast
  then show ?case
    unfolding runs_Cons sorted_wrt.simps hd using Cons.IH [OF s] by simp
qed

lemma sorted_wrt_trichotomy:
  assumes "sorted_wrt P xs" and "x \<in> set xs" and "y \<in> set xs"
  shows "x = y \<or> P x y \<or> P y x"
  using assms by (induction xs) auto

lemma runs_same_key:
  assumes "sorted (map name_key xs)" and "g \<in> set (runs xs)" and "h \<in> set (runs xs)"
    and "name_key (hd g) = name_key (hd h)"
  shows "g = h"
  using sorted_wrt_trichotomy [OF runs_keys_strict [OF assms(1)] assms(2,3)] assms(4)
  by auto

lemma runs_member_key:
  assumes "g \<in> set (runs xs)" and "a \<in> set g"
  shows "name_key a = name_key (hd g)"
proof -
  have "same_global (hd g) a" using runs_same [OF assms(1)] assms(2) by blast
  then show ?thesis by (simp only: same_global_key)
qed

lemma runs_cover:
  assumes "a \<in> set xs"
  obtains g where "g \<in> set (runs xs)" "a \<in> set g"
proof -
  have "a \<in> set (concat (runs xs))" using assms by (simp add: concat_runs)
  then show ?thesis using that by auto
qed

lemma std_sort_NameCompare_sorted:
  "std_sort NameCompare xs ys \<Longrightarrow> sorted (map name_key ys)"
  using sorted_wrt_key [of NameCompare name_key ys] NameCompare_key
  by (simp add: std_sort_def)

lemma same_group_iff:
  assumes "sorted (map name_key xs)" and "a \<in> set xs" and "b \<in> set xs"
  shows "(\<exists>g\<in>set (runs xs). a \<in> set g \<and> b \<in> set g) \<longleftrightarrow> name_key a = name_key b"
proof
  assume "\<exists>g\<in>set (runs xs). a \<in> set g \<and> b \<in> set g"
  then show "name_key a = name_key b" using runs_member_key by metis
next
  assume k: "name_key a = name_key b"
  from assms(2) obtain g where g: "g \<in> set (runs xs)" "a \<in> set g" by (rule runs_cover)
  from assms(3) obtain h where h: "h \<in> set (runs xs)" "b \<in> set h" by (rule runs_cover)
  have "name_key (hd g) = name_key (hd h)"
    using runs_member_key [OF g] runs_member_key [OF h] k by simp
  then have "g = h" using runs_same_key [OF assms(1) g(1) h(1)] by simp
  then show "\<exists>g\<in>set (runs xs). a \<in> set g \<and> b \<in> set g" using g h by blast
qed

lemma name_key_eq_iff:
  assumes "0 \<notin> set (name a)" and "0 \<notin> set (name b)"
  shows "name_key a = name_key b \<longleftrightarrow> name a = name b \<and> size_bytes a = size_bytes b"
  using assms by (simp add: name_key_def c_str_id)

lemma single_run_silent:
  assumes "g \<in> set (runs xs)" and "length g = 1"
  shows "find_repeats b g = []"
  unfolding runs_report [OF assms(1)] using assms(2) by (simp add: check_repeat_def)

subsection \<open>What does not depend on the order of the input\<close>

lemma sorted_mset_unique:
  fixes xs ys :: "'k::linorder list"
  assumes "sorted xs" and "sorted ys" and "mset xs = mset ys"
  shows "xs = ys"
proof -
  have "sort ys = xs" using assms(3,1) by (rule properties_for_sort)
  moreover have "sort ys = ys" using assms(2) by (rule sorted_sort_id)
  ultimately show ?thesis by simp
qed

lemma std_sort_keys_unique:
  fixes f :: "'a \<Rightarrow> 'k::linorder"
  assumes key: "\<And>a b. lt a b \<longleftrightarrow> f a < f b"
    and "std_sort lt xs ys" and "std_sort lt xs' ys'" and "mset xs' = mset xs"
  shows "map f ys' = map f ys"
proof -
  have "sorted (map f ys)" "sorted (map f ys')"
    using assms(2,3) sorted_wrt_key [of lt f, OF key] by (simp_all add: std_sort_def)
  moreover have "mset (map f ys') = mset (map f ys)"
    using assms(2,3,4) by (simp add: std_sort_def)
  ultimately show ?thesis by (intro sorted_mset_unique)
qed

lemma check_repeat_printed:
  assumes "name_key p = name_key q"
  shows "map printed_repeat (check_repeat True p n fc)
       = map printed_repeat (check_repeat True q n fc')"
  using assms
  by (simp add: check_repeat_def excess_count_def printed_repeat_def name_key_def Let_def)

lemma length_takeWhile_key:
  "length (takeWhile (same_global p) xs)
     = length (takeWhile (\<lambda>k. k = name_key p) (map name_key xs))"
  by (simp add: takeWhile_map same_global_key_fun comp_def)

lemma map_key_dropWhile:
  "map name_key (dropWhile (same_global p) xs)
     = dropWhile (\<lambda>k. k = name_key p) (map name_key xs)"
  by (simp add: dropWhile_map same_global_key_fun comp_def)

lemma find_repeats_printed:
  assumes "map name_key xs = map name_key ys"
  shows "map printed_repeat (find_repeats True xs) = map printed_repeat (find_repeats True ys)"
  using assms
proof (induction xs arbitrary: ys rule: runs_induct)
  case Nil
  then show ?case by simp
next
  case (Cons p ps)
  from Cons.prems obtain q qs where ys: "ys = q # qs" by (cases ys) auto
  have k: "name_key p = name_key q" using Cons.prems ys by simp
  have len: "length (takeWhile (same_global p) (p # ps))
      = length (takeWhile (same_global q) (q # qs))"
    unfolding length_takeWhile_key using Cons.prems ys k by simp
  have "map name_key (dropWhile (same_global p) (p # ps))
      = map name_key (dropWhile (same_global q) (q # qs))"
    unfolding map_key_dropWhile using Cons.prems ys k by simp
  then have rest: "map printed_repeat (find_repeats True (dropWhile (same_global p) (p # ps)))
      = map printed_repeat (find_repeats True (dropWhile (same_global q) (q # qs)))"
    by (rule Cons.IH)
  show ?case
    unfolding ys find_repeats_Cons map_append rest len
    using check_repeat_printed [OF k] by simp
qed

lemma large_symbols_filter:
  assumes "std_sort SizeCompare xs by_size"
  shows "large_symbols (rev by_size) = filter (\<lambda>s. \<not> size_bytes s < 500) (rev by_size)"
proof -
  have "sorted_wrt (\<lambda>a b. \<not> SizeCompare a b) (rev by_size)"
    using assms by (simp add: std_sort_def sorted_wrt_rev)
  then have "sorted_wrt (\<lambda>a b. size_bytes b \<le> size_bytes a) (rev by_size)"
    by (rule sorted_wrt_mono_rel [rotated]) (simp add: SizeCompare_size)
  then have "takeWhile (\<lambda>s. \<not> size_bytes s < 500) (rev by_size)
      = filter (\<lambda>s. \<not> size_bytes s < 500) (rev by_size)"
    by (rule takeWhile_eq_filter_sorted)
  then show ?thesis by (simp add: large_symbols_takeWhile kBigSizeThreshold_def)
qed

lemma scenario_B_reordered_mset: "mset scenario_B_reordered = mset scenario_B"
  by (simp add: scenario_B_reordered_def scenario_B_def)

lemma scenario_B_reordered_dump:
  "DumpInterestingGlobals scenario_B_reordered b ([scenario_A_group], [])"
proof -
  have 1: "std_sort NameCompare scenario_B_reordered scenario_B_reordered"
    by (simp add: scenario_B_reordered_def scenario_defs)
  have 2: "std_sort RepeatData_less (find_repeats b scenario_B_reordered) [scenario_A_group]"
    by (simp add: scenario_B_reordered_def scenario_A_group_def scenario_defs)
  have 3: "std_sort SizeCompare scenario_B_reordered scenario_B_reordered"
    by (simp add: scenario_B_reordered_def scenario_defs)
  have 4: "large_symbols (rev scenario_B_reordered) = []"
    by (simp add: scenario_B_reordered_def scenario_defs)
  from dump [OF 1 2 3] show ?thesis by (simp add: 4)
qed

lemma scenario_B_other_dump:
  "DumpInterestingGlobals scenario_B False ([scenario_A_group], [])"
proof -
  have 1: "std_sort NameCompare scenario_B scenario_B_reordered"
    by (simp add: scenario_B_def scenario_B_reordered_def scenario_defs)
  have 2: "std_sort RepeatData_less (find_repeats False scenario_B_reordered) [scenario_A_group]"
    by (simp add: scenario_B_reordered_def scenario_A_group_def scenario_defs)
  have 3: "std_sort SizeCompare scenario_B_reordered scenario_B_reordered"
    by (simp add: scenario_B_reordered_def scenario_defs)
  have 4: "large_symbols (rev scenario_B_reordered) = []"
    by (simp add: scenario_B_reordered_def scenario_defs)
  from dump [OF 1 2 3] show ?thesis by (simp add: 4)
qed

lemma scenario_B_run: "run_DumpInterestingGlobals scenario_B False = ([], [])"
  by (simp add: run_DumpInterestingGlobals_def scenario_B_def scenario_defs)

lemma scenario_B_reordered_run:
  "run_DumpInterestingGlobals scenario_B_reordered False = ([scenario_A_group], [])"
  by (simp add: run_DumpInterestingGlobals_def scenario_B_reordered_def scenario_A_group_def
      scenario_defs)

section \<open>The claims\<close>

text \<open>
  C1. The exclusion of folded instances, at a group whose first symbol has offset zero:
  two symbols named \<^verbatim>\<open>"k"\<close> of size 64, both at offset 0 (of sections 1 and 2).
  There is one excess instance and no folding match, since a zero offset is never one, so
  that 64 bytes are wasted. Without \<^verbatim>\<open>--show_folded_constants\<close> the analysis,
  whatever the sorts return, prints the group with \<open>folding_count = -1\<close> and
  \<open>bytes_wasted = 128\<close>: \<^verbatim>\<open>--folding_count\<close> is applied to a count that never included
  the first symbol, and the bytes of both instances are reported, not those of the
  excess one. Where the first offset is not zero, \<open>folded_excess_excluded\<close> above shows
  the exclusion as the code comments describe it.
\<close>

theorem zero_offset_pair_counts_both:
  "DumpInterestingGlobals zero_pair False out \<longleftrightarrow>
     out = ([\<lparr>repeat_count = 1, bytes_wasted = 128, folding_count = - 1,
                repeat_name = [107]\<rparr>], [])"
proof
  assume "DumpInterestingGlobals zero_pair False out"
  then obtain d l where out: "out = (d, l)"
    and "DumpInterestingGlobals zero_pair False (d, l)"
    by (cases out) auto
  then obtain by_name repeats by_size where
    n: "std_sort NameCompare zero_pair by_name"
    and r: "std_sort RepeatData_less (find_repeats False by_name) repeats"
    and s: "std_sort SizeCompare by_name by_size"
    and d: "d = rev repeats" and l: "l = large_symbols (rev by_size)"
    by (auto elim: DumpInterestingGlobalsE)
  have "find_repeats False by_name = [zero_pair_group]"
    using n by (intro find_repeats_zero_pair) (simp add: std_sort_def)
  then have "repeats = [zero_pair_group]" using r by (simp add: std_sort_def)
  moreover have "set (rev by_size) = set zero_pair"
    using std_sort_set [OF s] std_sort_set [OF n] by simp
  then have "large_symbols (rev by_size) = []"
    by (intro large_symbols_small) (simp add: zero_pair_def k_at_def kBigSizeThreshold_def)
  ultimately show "out = ([\<lparr>repeat_count = 1, bytes_wasted = 128, folding_count = - 1,
                repeat_name = [107]\<rparr>], [])"
    using out d l by (simp add: zero_pair_group_def)
next
  assume "out = ([\<lparr>repeat_count = 1, bytes_wasted = 128, folding_count = - 1,
                repeat_name = [107]\<rparr>], [])"
  then show "DumpInterestingGlobals zero_pair False out"
    using zero_pair_dump by (simp add: zero_pair_group_def)
qed

text \<open>
  C2. Whatever the three sorts return, every group in the printed sequence of repeated
  globals has \<open>bytes_wasted\<close> above the wastage threshold of 100, and the sequence is
  in descending order of \<open>bytes_wasted\<close>.
\<close>

theorem duplicate_groups_threshold_sorted:
  assumes "DumpInterestingGlobals symbols show_folded_constants (duplicate_groups, large)"
  shows "(\<forall>g\<in>set duplicate_groups. scast kWastageThreshold < bytes_wasted g \<and> 100 < bytes_wasted g)
       \<and> sorted_wrt (\<lambda>a b. bytes_wasted b \<le> bytes_wasted a) duplicate_groups"
proof -
  from assms obtain by_name repeats where
    r: "std_sort RepeatData_less (find_repeats show_folded_constants by_name) repeats"
    and d: "duplicate_groups = rev repeats"
    by (rule DumpInterestingGlobalsE)
  from r have m: "set repeats = set (find_repeats show_folded_constants by_name)"
    and s: "sorted_wrt (\<lambda>a b. \<not> RepeatData_less b a) repeats"
    by (auto simp: std_sort_def dest: mset_eq_setD)
  have "\<forall>g\<in>set repeats. scast kWastageThreshold < bytes_wasted g"
    using m find_repeats_wasted by blast
  moreover have "sorted_wrt (\<lambda>a b. bytes_wasted b \<le> bytes_wasted a) (rev repeats)"
    using s by (simp add: sorted_wrt_rev RepeatData_less_def not_less)
  ultimately show ?thesis using d by (simp add: kWastageThreshold_def)
qed

theorem duplicate_groups_threshold_sorted_witness:
  "DumpInterestingGlobals scenario_A False ([scenario_A_group], [])
   \<and> scast kWastageThreshold < bytes_wasted scenario_A_group
   \<and> 100 < bytes_wasted scenario_A_group
   \<and> sorted_wrt (\<lambda>a b. bytes_wasted b \<le> bytes_wasted a) [scenario_A_group]"
  using duplicate_groups_threshold_sorted [OF scenario_A_dump] scenario_A_dump by simp

text \<open>
  C3, as stated, at two symbols of size 600: both are printed, the second is not smaller
  than the first, and the printed sequence is not strictly descending by size.
\<close>

theorem large_symbols_not_strictly_descending:
  "DumpInterestingGlobals equal_sized False ([], rev equal_sized)
   \<and> \<not> sorted_wrt (\<lambda>a b. size_bytes b < size_bytes a) (rev equal_sized)"
  using equal_sized_dump by (simp add: equal_sized_def)

text \<open>
  C3, amended. The printed sequence of large symbols is in descending order of size, not
  strictly: symbols of equal size follow each other, and no symbol comes before one that
  \<^verbatim>\<open>SizeCompare\<close> ranks above it. Every entry has a size of at least 500, and the
  entries are exactly the symbols of the collection with such a size, so that no symbol
  below the threshold appears.
\<close>

theorem large_symbols_sorted_above_threshold:
  assumes "DumpInterestingGlobals symbols show_folded_constants (duplicate_groups, large)"
  shows "sorted_wrt (\<lambda>a b. size_bytes b \<le> size_bytes a) large
       \<and> sorted_wrt (\<lambda>a b. \<not> SizeCompare a b) large
       \<and> (\<forall>s\<in>set large. 500 \<le> size_bytes s)
       \<and> set large = {s \<in> set symbols. 500 \<le> size_bytes s}"
proof -
  from assms obtain by_name by_size where
    n: "std_sort NameCompare symbols by_name"
    and s: "std_sort SizeCompare by_name by_size"
    and l: "large = large_symbols (rev by_size)"
    by (rule DumpInterestingGlobalsE)
  have k: "scast kBigSizeThreshold = (500 :: ULONGLONG)" by (simp add: kBigSizeThreshold_def)
  have sc: "sorted_wrt (\<lambda>a b. \<not> SizeCompare a b) (rev by_size)"
    using s by (simp add: std_sort_def sorted_wrt_rev)
  then have sz: "sorted_wrt (\<lambda>a b. size_bytes b \<le> size_bytes a) (rev by_size)"
    by (rule sorted_wrt_mono_rel [rotated]) (simp add: SizeCompare_size)
  have tw: "large = takeWhile (\<lambda>s. \<not> size_bytes s < 500) (rev by_size)"
    using l k by (simp add: large_symbols_takeWhile)
  have fl: "large = filter (\<lambda>s. \<not> size_bytes s < 500) (rev by_size)"
    unfolding tw using sz by (rule takeWhile_eq_filter_sorted)
  have 1: "sorted_wrt (\<lambda>a b. size_bytes b \<le> size_bytes a) large"
    unfolding fl using sz by (rule sorted_wrt_filter)
  have 2: "sorted_wrt (\<lambda>a b. \<not> SizeCompare a b) large"
    unfolding fl using sc by (rule sorted_wrt_filter)
  have 3: "set large = {s \<in> set symbols. 500 \<le> size_bytes s}"
    unfolding fl using std_sort_set [OF s] std_sort_set [OF n] by (auto simp: not_less)
  from 1 2 3 show ?thesis by simp
qed

theorem large_symbols_sorted_above_threshold_witness:
  "DumpInterestingGlobals equal_sized False ([], rev equal_sized)
   \<and> sorted_wrt (\<lambda>a b. size_bytes b \<le> size_bytes a) (rev equal_sized)
   \<and> sorted_wrt (\<lambda>a b. \<not> SizeCompare a b) (rev equal_sized)
   \<and> 500 \<le> size_bytes (hd equal_sized) \<and> 500 \<le> size_bytes (last equal_sized)
   \<and> set (rev equal_sized) = {s \<in> set equal_sized. 500 \<le> size_bytes s}"
  using large_symbols_sorted_above_threshold [OF equal_sized_dump] equal_sized_dump
  by (simp add: equal_sized_def)

text \<open>
  C4. The groups are the runs of the name-sorted vector. They partition it, the printed
  groups are what the runs give, two symbols of the collection lie in one run exactly when
  their names and sizes are equal, and a run of a single symbol gives no printed group.
  The names hold no zero, as the constructor of \<^verbatim>\<open>SymbolData\<close> builds them from a
  zero-terminated string.
\<close>

theorem grouping_exact:
  assumes "DumpInterestingGlobals symbols show_folded_constants (duplicate_groups, large)"
    and "\<forall>s\<in>set symbols. 0 \<notin> set (name s)"
  shows "\<exists>by_name. std_sort NameCompare symbols by_name
           \<and> concat (runs by_name) = by_name
           \<and> mset duplicate_groups
               = mset (concat (map (find_repeats show_folded_constants) (runs by_name)))
           \<and> (\<forall>a\<in>set symbols. \<forall>b\<in>set symbols.
                 (\<exists>g\<in>set (runs by_name). a \<in> set g \<and> b \<in> set g)
                   \<longleftrightarrow> name a = name b \<and> size_bytes a = size_bytes b)
           \<and> (\<forall>g\<in>set (runs by_name). length g = 1 \<longrightarrow>
                 find_repeats show_folded_constants g = [])"
proof -
  from assms(1) obtain by_name repeats where
    n: "std_sort NameCompare symbols by_name"
    and rs: "std_sort RepeatData_less (find_repeats show_folded_constants by_name) repeats"
    and d: "duplicate_groups = rev repeats"
    by (rule DumpInterestingGlobalsE)
  have set_eq: "set by_name = set symbols" by (rule std_sort_set [OF n])
  have srt: "sorted (map name_key by_name)" by (rule std_sort_NameCompare_sorted [OF n])
  have 1: "mset duplicate_groups
      = mset (concat (map (find_repeats show_folded_constants) (runs by_name)))"
    using rs d by (simp add: std_sort_def find_repeats_runs [symmetric])
  have 2: "\<forall>a\<in>set symbols. \<forall>b\<in>set symbols.
      (\<exists>g\<in>set (runs by_name). a \<in> set g \<and> b \<in> set g)
        \<longleftrightarrow> name a = name b \<and> size_bytes a = size_bytes b"
  proof (intro ballI)
    fix a b
    assume a: "a \<in> set symbols" and b: "b \<in> set symbols"
    have "name_key a = name_key b \<longleftrightarrow> name a = name b \<and> size_bytes a = size_bytes b"
      using a b assms(2) by (intro name_key_eq_iff) auto
    moreover have "(\<exists>g\<in>set (runs by_name). a \<in> set g \<and> b \<in> set g)
        \<longleftrightarrow> name_key a = name_key b"
      using a b set_eq by (intro same_group_iff [OF srt]) auto
    ultimately show "(\<exists>g\<in>set (runs by_name). a \<in> set g \<and> b \<in> set g)
        \<longleftrightarrow> name a = name b \<and> size_bytes a = size_bytes b"
      by simp
  qed
  have 3: "\<forall>g\<in>set (runs by_name). length g = 1 \<longrightarrow>
      find_repeats show_folded_constants g = []"
    using single_run_silent by blast
  have 0: "concat (runs by_name) = by_name" by (rule concat_runs)
  show ?thesis
    by (rule exI [of _ by_name]) (intro conjI n 0 1 2 3)
qed

theorem grouping_exact_witness:
  "DumpInterestingGlobals scenario_B True ([scenario_B_group], [])
   \<and> 0 \<notin> set (name (k_at 0x10)) \<and> 0 \<notin> set (name (k_at 0x20))
   \<and> (\<exists>by_name. std_sort NameCompare scenario_B by_name
           \<and> concat (runs by_name) = by_name
           \<and> mset [scenario_B_group] = mset (concat (map (find_repeats True) (runs by_name)))
           \<and> (\<forall>a\<in>set scenario_B. \<forall>b\<in>set scenario_B.
                 (\<exists>g\<in>set (runs by_name). a \<in> set g \<and> b \<in> set g)
                   \<longleftrightarrow> name a = name b \<and> size_bytes a = size_bytes b)
           \<and> (\<forall>g\<in>set (runs by_name). length g = 1 \<longrightarrow> find_repeats True g = []))"
proof -
  have z: "\<forall>s\<in>set scenario_B. 0 \<notin> set (name s)"
    by (simp add: scenario_B_def k_at_def)
  from grouping_exact [OF scenario_B_dump z] scenario_B_dump show ?thesis
    by (simp add: k_at_def)
qed

text \<open>
  C5. For every group in the printed sequence of repeated globals, \<open>folding_count\<close>
  (a signed \<^verbatim>\<open>int\<close>) is at most \<open>repeat_count\<close> (an unsigned 64-bit count), as
  integers. The vector holds fewer than \<open>2 ^ 64\<close> symbols, so that \<^verbatim>\<open>pScan - p\<close>
  is the length of the run.
\<close>

theorem folding_count_le_repeat_count:
  assumes "DumpInterestingGlobals symbols show_folded_constants (duplicate_groups, large)"
    and "length symbols < 2 ^ 64"
    and "r \<in> set duplicate_groups"
  shows "sint (folding_count r) \<le> uint (repeat_count r)"
proof -
  from assms(1) obtain by_name repeats where
    n: "std_sort NameCompare symbols by_name"
    and rs: "std_sort RepeatData_less (find_repeats show_folded_constants by_name) repeats"
    and d: "duplicate_groups = rev repeats"
    by (rule DumpInterestingGlobalsE)
  have "r \<in> set (find_repeats show_folded_constants by_name)"
    using assms(3) d std_sort_set [OF rs] by simp
  then obtain g where g: "g \<in> set (runs by_name)"
    and r: "find_repeats show_folded_constants g = [r]"
    by (rule emitted_run)
  have "length g < 2 ^ 64"
    using runs_length_le [OF g] std_sort_length [OF n] assms(2) by simp
  moreover have "length (filter (folded (hd g)) g) \<le> length g" by simp
  moreover have "r \<in> set (check_repeat show_folded_constants (hd g) (of_nat (length g))
             (of_nat (length (filter (folded (hd g)) g))))"
    using r runs_report [OF g, of show_folded_constants] by simp
  ultimately show ?thesis using check_repeat_folding_le by blast
qed

theorem folding_count_le_repeat_count_witness:
  "DumpInterestingGlobals scenario_B True ([scenario_B_group], [])
   \<and> length scenario_B < 2 ^ 64
   \<and> scenario_B_group \<in> set [scenario_B_group]
   \<and> sint (folding_count scenario_B_group) \<le> uint (repeat_count scenario_B_group)"
proof -
  have l: "length scenario_B < 2 ^ 64" by (simp add: scenario_B_def)
  have m: "scenario_B_group \<in> set [scenario_B_group]" by simp
  from folding_count_le_repeat_count [OF scenario_B_dump l m] scenario_B_dump l m
  show ?thesis by blast
qed

text \<open>
  C6. Scenario A: three records named \<^verbatim>\<open>"k"\<close> of size 64 at the offsets 0x10, 0x20
  and 0x30. Whatever the sorts return and whatever the flag, the analysis prints exactly
  one group, with \<open>repeat_count = 2\<close>, \<open>folding_count = 0\<close> and
  \<open>bytes_wasted = 128\<close>, and no large symbol.
\<close>

theorem scenario_A_one_group:
  "DumpInterestingGlobals scenario_A show_folded_constants out \<longleftrightarrow>
     out = ([\<lparr>repeat_count = 2, bytes_wasted = 128, folding_count = 0, repeat_name = [107]\<rparr>], [])"
proof
  assume "DumpInterestingGlobals scenario_A show_folded_constants out"
  then obtain d l where out: "out = (d, l)"
    and "DumpInterestingGlobals scenario_A show_folded_constants (d, l)"
    by (cases out) auto
  then obtain by_name repeats by_size where
    n: "std_sort NameCompare scenario_A by_name"
    and r: "std_sort RepeatData_less (find_repeats show_folded_constants by_name) repeats"
    and s: "std_sort SizeCompare by_name by_size"
    and d: "d = rev repeats" and l: "l = large_symbols (rev by_size)"
    by (auto elim: DumpInterestingGlobalsE)
  have "find_repeats show_folded_constants by_name = [scenario_A_group]"
    using n by (intro find_repeats_scenario_A_any) (simp add: std_sort_def)
  then have "repeats = [scenario_A_group]" using r by (simp add: std_sort_def)
  moreover have "set (rev by_size) = set scenario_A"
    using std_sort_set [OF s] std_sort_set [OF n] by simp
  then have "large_symbols (rev by_size) = []"
    by (intro large_symbols_small) (simp add: scenario_A_def k_at_def kBigSizeThreshold_def)
  ultimately show "out = ([\<lparr>repeat_count = 2, bytes_wasted = 128, folding_count = 0, repeat_name = [107]\<rparr>], [])"
    using out d l by (simp add: scenario_A_group_def)
next
  assume "out = ([\<lparr>repeat_count = 2, bytes_wasted = 128, folding_count = 0, repeat_name = [107]\<rparr>], [])"
  moreover have "DumpInterestingGlobals scenario_A show_folded_constants ([scenario_A_group], [])"
  proof -
    have 1: "std_sort NameCompare scenario_A scenario_A"
      by (simp add: std_sort_def scenario_A_def k_at_def NameCompare_def StringCompare_def)
    have 2: "std_sort RepeatData_less (find_repeats show_folded_constants scenario_A) [scenario_A_group]"
      by (simp add: find_repeats_scenario_A_any std_sort_def)
    have 3: "std_sort SizeCompare scenario_A scenario_A"
      by (simp add: std_sort_def scenario_A_def k_at_def SizeCompare_def StringCompare_def)
    have 4: "large_symbols (rev scenario_A) = []"
      by (simp add: scenario_A_def k_at_def kBigSizeThreshold_def)
    from dump [OF 1 2 3] show ?thesis by (simp add: 4)
  qed
  ultimately show "DumpInterestingGlobals scenario_A show_folded_constants out"
    by (simp add: scenario_A_group_def)
qed

text \<open>
  C7. The analysis has a result for every symbol collection (the one computed with
  insertion sort is admissible), and on the empty collection its only result is two empty
  sequences. The model has no error value: the analysis has no failing branch.
\<close>

theorem analyzer_total_and_empty:
  "DumpInterestingGlobals symbols show_folded_constants
     (run_DumpInterestingGlobals symbols show_folded_constants)
   \<and> (DumpInterestingGlobals [] show_folded_constants out \<longleftrightarrow> out = ([], []))"
proof -
  have "DumpInterestingGlobals [] show_folded_constants out \<longleftrightarrow> out = ([], [])"
  proof
    assume "DumpInterestingGlobals [] show_folded_constants out"
    then show "out = ([], [])"
      by (cases rule: DumpInterestingGlobals.cases) (simp add: std_sort_Nil)
  next
    assume "out = ([], [])"
    moreover have "run_DumpInterestingGlobals [] show_folded_constants = ([], [])"
      by (simp add: run_DumpInterestingGlobals_def Let_def)
    ultimately show "DumpInterestingGlobals [] show_folded_constants out"
      using run_DumpInterestingGlobals_admissible [of "[]" show_folded_constants] by simp
  qed
  then show ?thesis using run_DumpInterestingGlobals_admissible by simp
qed

text \<open>
  C8. With no path argument \<^verbatim>\<open>argv\<close> holds the program name alone. The argument loop
  starts at index 0 and takes it for the path, so that the usage message is never printed,
  whatever the COM calls return. And when \<^verbatim>\<open>CoInitialize\<close> fails, the program prints
  its message and returns \<^verbatim>\<open>false\<close>, the exit code 0.
\<close>

theorem program_name_taken_for_path:
  "Usage \<notin> set (fst (wmain com [L ''ShowGlobals.exe'']))
   \<and> (FAILED (CoInitialize com) \<longrightarrow>
        wmain com [L ''ShowGlobals.exe'', L ''chrome.dll.pdb'']
          = ([CoInitialize_failed (CoInitialize com)], 0))"
proof -
  have "Usage \<notin> set (fst (wmain com [L ''ShowGlobals.exe'']))"
    using Usage_not_in_Initialize [of com "L ''ShowGlobals.exe''"]
    by (auto simp: wmain_def parse_program_name simp del: parse_args.simps
        split: prod.splits bool.splits)
  moreover have "FAILED (CoInitialize com) \<longrightarrow>
        wmain com [L ''ShowGlobals.exe'', L ''chrome.dll.pdb'']
          = ([CoInitialize_failed (CoInitialize com)], 0)"
    by (simp add: wmain_def parse_program_name_path del: parse_args.simps)
  ultimately show ?thesis by simp
qed

theorem program_name_taken_for_path_witness:
  "Usage \<notin> set (fst (wmain failing_com [L ''ShowGlobals.exe'']))
   \<and> FAILED (CoInitialize failing_com)
   \<and> wmain failing_com [L ''ShowGlobals.exe'', L ''chrome.dll.pdb'']
          = ([CoInitialize_failed (- 1)], 0)"
proof -
  have f: "FAILED (CoInitialize failing_com)" by (simp add: FAILED_def failing_com_def)
  from program_name_taken_for_path [of failing_com] f show ?thesis
    by (simp add: failing_com_def)
qed

text \<open>
  C9, as stated, at three copies of \<^verbatim>\<open>"k"\<close> of size 64, two of them at offset 0x10 and
  one at 0x20, without \<^verbatim>\<open>--show_folded_constants\<close>. With the same sort, the collection
  in one order gives no group and in another order one group of 128 wasted bytes; and for
  one order of the input both results are admissible. The difference is not one of order
  among elements with equal sort keys.
\<close>

theorem reordered_input_changes_groups:
  "mset scenario_B_reordered = mset scenario_B
   \<and> run_DumpInterestingGlobals scenario_B False = ([], [])
   \<and> run_DumpInterestingGlobals scenario_B_reordered False
        = ([\<lparr>repeat_count = 2, bytes_wasted = 128, folding_count = 0, repeat_name = [107]\<rparr>], [])
   \<and> DumpInterestingGlobals scenario_B False ([], [])
   \<and> DumpInterestingGlobals scenario_B False
        ([\<lparr>repeat_count = 2, bytes_wasted = 128, folding_count = 0, repeat_name = [107]\<rparr>], [])"
  using scenario_B_reordered_mset scenario_B_run scenario_B_reordered_run
    scenario_B_other_dump run_DumpInterestingGlobals_admissible [of scenario_B False]
  by (simp add: scenario_A_group_def)

text \<open>
  C9, amended. For two orders of one symbol collection and any results of the sorts, the
  printed large symbols have the same sequence of sizes and names and are the same
  multiset: they agree up to the order of entries with equal size and name. With
  \<^verbatim>\<open>--show_folded_constants\<close> the printed groups of repeated globals, their folding
  counts left out, have the same sequence of \<open>bytes_wasted\<close> and are the same multiset of
  rows: they agree up to the order of groups with equal \<open>bytes_wasted\<close>.
\<close>

theorem analysis_determined_up_to_ties:
  assumes "mset symbols' = mset symbols"
    and "DumpInterestingGlobals symbols show_folded_constants (duplicate_groups, large)"
    and "DumpInterestingGlobals symbols' show_folded_constants (duplicate_groups', large')"
  shows "map size_key large' = map size_key large \<and> mset large' = mset large
       \<and> (show_folded_constants \<longrightarrow>
            map bytes_wasted duplicate_groups' = map bytes_wasted duplicate_groups
            \<and> mset (map printed_repeat duplicate_groups')
                = mset (map printed_repeat duplicate_groups))"
proof -
  from assms(2) obtain by_name repeats by_size where
    n: "std_sort NameCompare symbols by_name"
    and r: "std_sort RepeatData_less (find_repeats show_folded_constants by_name) repeats"
    and s: "std_sort SizeCompare by_name by_size"
    and d: "duplicate_groups = rev repeats" and l: "large = large_symbols (rev by_size)"
    by (rule DumpInterestingGlobalsE)
  from assms(3) obtain by_name' repeats' by_size' where
    n': "std_sort NameCompare symbols' by_name'"
    and r': "std_sort RepeatData_less (find_repeats show_folded_constants by_name') repeats'"
    and s': "std_sort SizeCompare by_name' by_size'"
    and d': "duplicate_groups' = rev repeats'" and l': "large' = large_symbols (rev by_size')"
    by (rule DumpInterestingGlobalsE)
  have mn: "mset by_name' = mset by_name" using n n' assms(1) by (simp add: std_sort_def)
  have ms: "mset by_size' = mset by_size" using s s' mn by (simp add: std_sort_def)
  have ks: "map size_key by_size' = map size_key by_size"
    using SizeCompare_key s s' mn by (rule std_sort_keys_unique)
  have lf: "large = filter (\<lambda>s. \<not> size_bytes s < 500) (rev by_size)"
    "large' = filter (\<lambda>s. \<not> size_bytes s < 500) (rev by_size')"
    using l l' large_symbols_filter [OF s] large_symbols_filter [OF s'] by simp_all
  have kr: "map size_key (rev by_size') = map size_key (rev by_size)"
    using ks by (simp only: rev_map [symmetric])
  have "map size_key large = filter (\<lambda>k. \<not> fst k < 500) (map size_key (rev by_size))"
    "map size_key large' = filter (\<lambda>k. \<not> fst k < 500) (map size_key (rev by_size'))"
    unfolding lf by (simp_all add: filter_map comp_def size_key_def)
  then have 1: "map size_key large' = map size_key large" using kr by simp
  have 2: "mset large' = mset large" unfolding lf using ms by simp
  have 3: "map bytes_wasted duplicate_groups' = map bytes_wasted duplicate_groups
      \<and> mset (map printed_repeat duplicate_groups')
                = mset (map printed_repeat duplicate_groups)"
    if "show_folded_constants"
  proof -
    have kn: "map name_key by_name' = map name_key by_name"
      using NameCompare_key n n' assms(1) by (rule std_sort_keys_unique)
    have p: "map printed_repeat (find_repeats True by_name')
        = map printed_repeat (find_repeats True by_name)"
      using kn by (rule find_repeats_printed)
    have mr: "mset repeats = mset (find_repeats True by_name)"
      "mset repeats' = mset (find_repeats True by_name')"
      using r r' that by (simp_all add: std_sort_def)
    have "mset (map printed_repeat repeats) = mset (map printed_repeat (find_repeats True by_name))"
      "mset (map printed_repeat repeats')
         = mset (map printed_repeat (find_repeats True by_name'))"
      using mr by (simp_all only: mset_map)
    then have mp: "mset (map printed_repeat repeats') = mset (map printed_repeat repeats)"
      using p by simp
    have bw: "map bytes_wasted xs = map (\<lambda>t. fst (snd t)) (map printed_repeat xs)" for xs
      by (simp add: printed_repeat_def)
    have "mset (map bytes_wasted repeats') = mset (map bytes_wasted repeats)"
      unfolding bw using mp by (simp only: mset_map)
    moreover have "sorted (map bytes_wasted repeats)" "sorted (map bytes_wasted repeats')"
      using r r' sorted_wrt_key [of RepeatData_less bytes_wasted, OF RepeatData_less_key]
      by (simp_all add: std_sort_def)
    ultimately have "map bytes_wasted repeats' = map bytes_wasted repeats"
      by (intro sorted_mset_unique)
    then have "map bytes_wasted (rev repeats') = map bytes_wasted (rev repeats)"
      by (simp only: rev_map [symmetric])
    moreover have "mset (map printed_repeat (rev repeats'))
        = mset (map printed_repeat (rev repeats))"
      using mp by (simp only: mset_map mset_rev)
    ultimately show ?thesis using d d' by simp
  qed
  from 1 2 3 show ?thesis by simp
qed

theorem analysis_determined_up_to_ties_witness:
  "mset scenario_B_reordered = mset scenario_B
   \<and> DumpInterestingGlobals scenario_B True ([scenario_B_group], [])
   \<and> DumpInterestingGlobals scenario_B_reordered True ([scenario_A_group], [])
   \<and> folding_count scenario_A_group \<noteq> folding_count scenario_B_group
   \<and> map bytes_wasted [scenario_A_group] = map bytes_wasted [scenario_B_group]
   \<and> mset (map printed_repeat [scenario_A_group]) = mset (map printed_repeat [scenario_B_group])"
  using analysis_determined_up_to_ties
    [OF scenario_B_reordered_mset scenario_B_dump scenario_B_reordered_dump]
    scenario_B_reordered_mset scenario_B_dump scenario_B_reordered_dump
  by (simp add: scenario_A_group_def scenario_B_group_def)

text \<open>
  C10. For every printed group of repeated globals there is the run of the name-sorted
  vector it was computed from, and the printed \<open>folding_count\<close> is \<open>-1\<close> exactly
  when the offset of the first symbol of that run is zero, and is not negative otherwise.
  When that offset is zero, the excess count computed without
  \<^verbatim>\<open>--show_folded_constants\<close> is \<open>repeat_count + 1\<close>, which is then what
  \<open>bytes_wasted\<close> multiplies the size by. The vector holds fewer than \<open>2 ^ 31\<close>
  symbols, so that the \<^verbatim>\<open>int\<close> counter cannot overflow.
\<close>

theorem folding_count_of_zero_offset:
  assumes "DumpInterestingGlobals symbols show_folded_constants (duplicate_groups, large)"
    and "length symbols < 2 ^ 31"
    and "r \<in> set duplicate_groups"
  shows "\<exists>by_name g. std_sort NameCompare symbols by_name \<and> g \<in> set (runs by_name)
           \<and> find_repeats show_folded_constants g = [r]
           \<and> (folding_count r = - 1 \<longleftrightarrow> offset (hd g) = 0)
           \<and> (offset (hd g) \<noteq> 0 \<longrightarrow> 0 \<le> sint (folding_count r))
           \<and> (offset (hd g) = 0 \<longrightarrow>
                 excess_count False (repeat_count r) (folding_count r) = repeat_count r + 1)
           \<and> (offset (hd g) = 0 \<and> \<not> show_folded_constants \<longrightarrow>
                 bytes_wasted r = (repeat_count r + 1) * size_bytes (hd g))"
proof -
  from assms(1) obtain by_name repeats where
    n: "std_sort NameCompare symbols by_name"
    and rs: "std_sort RepeatData_less (find_repeats show_folded_constants by_name) repeats"
    and d: "duplicate_groups = rev repeats"
    by (rule DumpInterestingGlobalsE)
  have "r \<in> set (find_repeats show_folded_constants by_name)"
    using assms(3) d std_sort_set [OF rs] by simp
  then obtain g where g: "g \<in> set (runs by_name)"
    and r: "find_repeats show_folded_constants g = [r]"
    by (rule emitted_run)
  define m where "m = length (filter (folded (hd g)) g)"
  have len: "length g < 2 ^ 31"
    using runs_length_le [OF g] std_sort_length [OF n] assms(2) by simp
  have mle: "m \<le> length g" by (simp add: m_def)
  have mem: "r \<in> set (check_repeat show_folded_constants (hd g) (of_nat (length g)) (of_nat m))"
    using r runs_report [OF g, of show_folded_constants] by (simp add: m_def)
  note c = check_repeat_counts [OF mem]
  have sgn: "sint (folding_count r) = int m - 1"
    by (rule check_repeat_folding_sign [OF mem mle len])
  have ne: "g \<noteq> []" using runs_same [OF g] by simp
  have zero: "m = 0" if "offset (hd g) = 0"
    using that by (simp add: m_def filter_folded_zero)
  have pos: "0 < m" if "offset (hd g) \<noteq> 0"
    using that ne filter_folded_hd [of "hd g" "tl g"] by (simp add: m_def)
  have minus: "folding_count r = - 1 \<longleftrightarrow> m = 0"
  proof
    assume "folding_count r = - 1"
    then have "sint (folding_count r) = - 1" by simp
    then show "m = 0" using sgn by simp
  next
    assume "m = 0"
    then show "folding_count r = - 1" using c(3) by simp
  qed
  have 1: "folding_count r = - 1 \<longleftrightarrow> offset (hd g) = 0"
    using minus zero pos by (cases "offset (hd g) = 0") auto
  have 2: "offset (hd g) \<noteq> 0 \<longrightarrow> 0 \<le> sint (folding_count r)"
    using pos sgn by auto
  have 3: "offset (hd g) = 0 \<longrightarrow>
      excess_count False (repeat_count r) (folding_count r) = repeat_count r + 1"
    using 1 by (auto simp: excess_count_def)
  have 4: "offset (hd g) = 0 \<and> \<not> show_folded_constants \<longrightarrow>
      bytes_wasted r = (repeat_count r + 1) * size_bytes (hd g)"
    using 1 c(2,3,4) by (auto simp: excess_count_def)
  from n g r 1 2 3 4 show ?thesis by blast
qed

theorem folding_count_of_zero_offset_witness:
  "DumpInterestingGlobals zero_pair False ([zero_pair_group], [])
   \<and> length zero_pair < 2 ^ 31
   \<and> zero_pair_group \<in> set [zero_pair_group]
   \<and> sint (folding_count zero_pair_group) = - 1
   \<and> (\<exists>by_name g. std_sort NameCompare zero_pair by_name \<and> g \<in> set (runs by_name)
           \<and> find_repeats False g = [zero_pair_group]
           \<and> (folding_count zero_pair_group = - 1 \<longleftrightarrow> offset (hd g) = 0)
           \<and> (offset (hd g) \<noteq> 0 \<longrightarrow> 0 \<le> sint (folding_count zero_pair_group))
           \<and> (offset (hd g) = 0 \<longrightarrow>
                 excess_count False (repeat_count zero_pair_group) (folding_count zero_pair_group)
                   = repeat_count zero_pair_group + 1)
           \<and> (offset (hd g) = 0 \<and> \<not> False \<longrightarrow>
                 bytes_wasted zero_pair_group
                   = (repeat_count zero_pair_group + 1) * size_bytes (hd g)))"
proof -
  have l: "length zero_pair < 2 ^ 31" by (simp add: zero_pair_def)
  have m: "zero_pair_group \<in> set [zero_pair_group]" by simp
  have f: "sint (folding_count zero_pair_group) = - 1" by (simp add: zero_pair_group_def)
  from folding_count_of_zero_offset [OF zero_pair_dump l m] zero_pair_dump l m f
  show ?thesis by blast
qed

end
